theory Spec2Isabelle
  imports Main "HOL-Library.FSet" "HOL-Library.List_Lexorder" "HOL-Library.Char_ord"
begin

section \<open>Python strings\<close>

text \<open>
  A Python \<open>str\<close> is modelled as a \<open>string\<close> whose characters are the code points
  0 to 255. On that range \<open>str.strip\<close>, \<open>str.rstrip\<close> and \<open>str.lower\<close> are written
  out below as CPython defines them: the white space characters are 9 to 13, 28 to 32,
  133 and 160; the upper-case characters are A to Z and the Latin-1 capitals 192 to 222
  without the multiplication sign 215, each 32 below its lower-case form.
\<close>

definition isspace :: "char \<Rightarrow> bool" where
  "isspace c = (let n = (of_char c :: nat) in
     (9 \<le> n \<and> n \<le> 13) \<or> (28 \<le> n \<and> n \<le> 32) \<or> n = 133 \<or> n = 160)"

definition isupper :: "char \<Rightarrow> bool" where
  "isupper c = (let n = (of_char c :: nat) in
     (65 \<le> n \<and> n \<le> 90) \<or> (192 \<le> n \<and> n \<le> 222 \<and> n \<noteq> 215))"

definition lower_char :: "char \<Rightarrow> char" where
  "lower_char c = (if isupper c then char_of ((of_char c :: nat) + 32) else c)"

definition lower :: "string \<Rightarrow> string" where
  "lower s = map lower_char s"

definition lstrip :: "string \<Rightarrow> string" where
  "lstrip s = dropWhile isspace s"

definition rstrip :: "string \<Rightarrow> string" where
  "rstrip s = rev (dropWhile isspace (rev s))"

definition strip :: "string \<Rightarrow> string" where
  "strip s = rstrip (lstrip s)"

definition startswith :: "string \<Rightarrow> string \<Rightarrow> bool" where
  "startswith s p = (take (length p) s = p)"

definition endswith :: "string \<Rightarrow> string \<Rightarrow> bool" where
  "endswith s p = (length p \<le> length s \<and> drop (length s - length p) s = p)"

datatype exn = OSError | IndexError

text \<open>\<open>s.split(c, 1)\<close> for a one-character separator: at most one cut, at the first \<open>c\<close>.\<close>

definition split1 :: "char \<Rightarrow> string \<Rightarrow> string list" where
  "split1 c s = (case dropWhile (\<lambda>x. x \<noteq> c) s of
       [] \<Rightarrow> [s]
     | _ # r \<Rightarrow> [takeWhile (\<lambda>x. x \<noteq> c) s, r])"

text \<open>\<open>xs[i]\<close> for a natural index: out of range raises \<open>IndexError\<close>.\<close>

definition getitem :: "'a list \<Rightarrow> nat \<Rightarrow> exn + 'a" where
  "getitem xs i = (if i < length xs then Inr (xs ! i) else Inl IndexError)"

section \<open>Reading a text stream line by line\<close>

text \<open>
  Both input streams are opened in text mode with universal newlines: \<open>\r\n\<close> and a lone
  \<open>\r\<close> are read as \<open>\n\<close>, and iterating yields the lines with their terminator, the
  last one possibly without.
\<close>

fun translate_newlines :: "string \<Rightarrow> string" where
  "translate_newlines [] = []"
| "translate_newlines [c] = (if c = CHR 0x0D then [CHR 0x0A] else [c])"
| "translate_newlines (c # d # cs) =
     (if c = CHR 0x0D
      then (if d = CHR 0x0A then CHR 0x0A # translate_newlines cs
            else CHR 0x0A # translate_newlines (d # cs))
      else c # translate_newlines (d # cs))"

fun split_lines :: "string \<Rightarrow> string \<Rightarrow> string list" where
  "split_lines cur [] = (if cur = [] then [] else [cur])"
| "split_lines cur (c # cs) =
     (if c = CHR 0x0A then (cur @ [c]) # split_lines [] cs
      else split_lines (cur @ [c]) cs)"

definition text_lines :: "string \<Rightarrow> string list" where
  "text_lines t = split_lines [] (translate_newlines t)"

section \<open>The reference sets\<close>

text \<open>
  Lines 11 to 23: every line of the package listing, right-stripped, is added to
  \<open>testing\<close>, then the three fixed names.
\<close>

fun testing_loop :: "string list \<Rightarrow> string fset \<Rightarrow> string fset" where
  "testing_loop [] testing = testing"
| "testing_loop (line # ls) testing = testing_loop ls (finsert (rstrip line) testing)"

definition testing_of :: "string \<Rightarrow> string fset" where
  "testing_of listing =
     finsert ''google-earth-stable''
       (finsert ''libraspberrypi0''
         (finsert ''raspberrypi-bootloader''
           (testing_loop (text_lines listing) {||})))"

text \<open>
  Lines 33 to 37, on the text of the index file that lines 26 to 31 have made sure is
  there: a line that starts with \<open>Package:\<close> adds \<open>line.split(':', 1)[1].strip()\<close>
  to \<open>stable\<close>.
\<close>

fun stable_loop :: "string list \<Rightarrow> string fset \<Rightarrow> exn + string fset" where
  "stable_loop [] stable' = Inr stable'"
| "stable_loop (line # ls) stable' =
     (if startswith line ''Package:''
      then (case getitem (split1 CHR '':'' line) 1 of
              Inl e \<Rightarrow> Inl e
            | Inr r \<Rightarrow> stable_loop ls (finsert (strip r) stable'))
      else stable_loop ls stable')"

definition stable_of :: "string \<Rightarrow> exn + string fset" where
  "stable_of index = stable_loop (text_lines index) {||}"

text \<open>
  The stable set in the words of the specification: the trimmed remainders after the
  first colon of the lines that begin with the tag.
\<close>

definition after_first_colon :: "string \<Rightarrow> string" where
  "after_first_colon l = tl (dropWhile (\<lambda>x. x \<noteq> CHR '':'') l)"

definition stable_spec :: "string \<Rightarrow> string fset" where
  "stable_spec index =
     fset_of_list (map (\<lambda>l. strip (after_first_colon l))
       (filter (\<lambda>l. startswith l ''Package:'') (text_lines index)))"

section \<open>The operating system\<close>

text \<open>
  The file system and the external \<open>git\<close> are not part of the program: they are a
  parameter, a state \<open>'w\<close> with the four operations the program uses. \<open>listdir\<close> gives
  the entry names of a directory or fails, \<open>makedirs\<close> may fail, and \<open>call\<close> runs a
  command to its exit status, or fails when the command cannot be started.
\<close>

record 'w os_iface =
  listdir :: "'w \<Rightarrow> string \<Rightarrow> exn + string list"
  isdir :: "'w \<Rightarrow> string \<Rightarrow> bool"
  makedirs :: "'w \<Rightarrow> string \<Rightarrow> exn + 'w"
  call :: "'w \<Rightarrow> string list \<Rightarrow> exn + int \<times> 'w"

text \<open>\<open>os.path.join\<close> with two arguments and \<open>os.path.basename\<close>, as in \<open>posixpath\<close>.\<close>

definition path_join :: "string \<Rightarrow> string \<Rightarrow> string" where
  "path_join a b =
     (if startswith b ''/'' then b
      else if a = [] \<or> endswith a ''/'' then a @ b
      else a @ ''/'' @ b)"

definition basename :: "string \<Rightarrow> string" where
  "basename p = rev (takeWhile (\<lambda>x. x \<noteq> CHR ''/'') (rev p))"

text \<open>
  \<open>glob.glob(d + '/*')\<close>: no match when the directory cannot be listed; otherwise the
  entries whose name does not start with a dot, each joined to \<open>d\<close>. A directory entry
  is never the empty name.
\<close>

definition ishidden :: "string \<Rightarrow> bool" where
  "ishidden n = (case n of [] \<Rightarrow> False | c # _ \<Rightarrow> c = CHR ''.'')"

definition glob_star :: "'w os_iface \<Rightarrow> 'w \<Rightarrow> string \<Rightarrow> string list" where
  "glob_star os w d =
     (case listdir os w d of
        Inl e \<Rightarrow> []
      | Inr names \<Rightarrow> map (path_join d) (filter (\<lambda>n. \<not> ishidden n) names))"

text \<open>Lines 40 and 41.\<close>

definition filters_of :: "'w os_iface \<Rightarrow> 'w \<Rightarrow> string fset" where
  "filters_of os w = fset_of_list (map basename (glob_star os w ''rules''))"

definition explain_of :: "'w os_iface \<Rightarrow> 'w \<Rightarrow> string fset" where
  "explain_of os w =
     fset_of_list (map basename (filter (\<lambda>f. f = lower f) (glob_star os w ''explain'')))"

text \<open>What a directory entry name is: not empty, without a slash.\<close>

definition entry_name :: "string \<Rightarrow> bool" where
  "entry_name n = (n \<noteq> [] \<and> CHR ''/'' \<notin> set n)"

section \<open>Program state\<close>

text \<open>
  Python sets are objects: a variable holds a reference, and the heap maps references
  to set values. The state of a run is the heap, the events so far in program order
  (lines printed, directories created, commands called) and the state of the
  operating system. A reference is an index into the heap; the program only ever holds
  references to objects that exist, so what is proved about a call of \<open>process\<close> is
  proved for arguments below the length of the heap.
\<close>

type_synonym ref = nat

datatype pyobj = PyStr string | PyList "string list"

datatype event = Print "pyobj list" | Makedirs string | Call "string list"

record 'w state =
  heap :: "string fset list"
  out :: "event list"
  world :: "'w"

definition deref :: "'w state \<Rightarrow> ref \<Rightarrow> string fset" where
  "deref s r = heap s ! r"

definition new_set :: "string fset \<Rightarrow> 'w state \<Rightarrow> ref \<times> 'w state" where
  "new_set v s = (length (heap s), s\<lparr>heap := heap s @ [v]\<rparr>)"

text \<open>\<open>a - b\<close> and \<open>a & b\<close> on sets build a new set object.\<close>

definition set_sub :: "ref \<Rightarrow> ref \<Rightarrow> 'w state \<Rightarrow> ref \<times> 'w state" where
  "set_sub a b s = new_set (deref s a |-| deref s b) s"

definition set_and :: "ref \<Rightarrow> ref \<Rightarrow> 'w state \<Rightarrow> ref \<times> 'w state" where
  "set_and a b s = new_set (deref s a |\<inter>| deref s b) s"

definition py_print :: "pyobj list \<Rightarrow> 'w state \<Rightarrow> 'w state" where
  "py_print args s = s\<lparr>out := out s @ [Print args]\<rparr>"

definition os_makedirs :: "'w os_iface \<Rightarrow> string \<Rightarrow> 'w state \<Rightarrow> exn option \<times> 'w state" where
  "os_makedirs os path s =
     (let s' = s\<lparr>out := out s @ [Makedirs path]\<rparr> in
      case makedirs os (world s) path of
        Inl e \<Rightarrow> (Some e, s')
      | Inr w \<Rightarrow> (None, s'\<lparr>world := w\<rparr>))"

text \<open>
  \<open>subprocess.call\<close> starts the command, waits and returns its exit status, whatever
  it is; it raises only when the command cannot be started.
\<close>

definition subprocess_call :: "'w os_iface \<Rightarrow> string list \<Rightarrow> 'w state \<Rightarrow> (exn + int) \<times> 'w state" where
  "subprocess_call os argv s =
     (let s' = s\<lparr>out := out s @ [Call argv]\<rparr> in
      case call os (world s) argv of
        Inl e \<Rightarrow> (Inl e, s')
      | Inr (rc, w) \<Rightarrow> (Inr rc, s'\<lparr>world := w\<rparr>))"

text \<open>
  Iterating a set visits every element once, in an order that the language leaves
  open: the order is a parameter \<open>it\<close>. \<open>sorted\<close> sorts what the iteration yields.
\<close>

definition iteration_order :: "(string fset \<Rightarrow> string list) \<Rightarrow> bool" where
  "iteration_order it = (\<forall>v. distinct (it v) \<and> set (it v) = fset v)"

definition py_sorted :: "(string fset \<Rightarrow> string list) \<Rightarrow> string fset \<Rightarrow> string list" where
  "py_sorted it v = sort (it v)"

section \<open>process\<close>

text \<open>Lines 44 to 46; the result is the values of \<open>deprecated\<close> and \<open>unknown\<close>.\<close>

definition classify :: "ref \<Rightarrow> ref \<Rightarrow> ref \<Rightarrow> 'w state \<Rightarrow> ref \<times> ref \<times> 'w state" where
  "classify packages testing stable' s0 =
     (let (unknown, s1) = set_sub packages testing s0;
          (deprecated, s2) = set_and unknown stable' s1;
          (unknown, s3) = set_sub unknown stable' s2
      in (deprecated, unknown, s3))"

text \<open>Lines 49 to 53, over the elements in the order the iteration yields them.\<close>

fun archive_loop ::
  "'w os_iface \<Rightarrow> string \<Rightarrow> string \<Rightarrow> string list \<Rightarrow> 'w state \<Rightarrow> exn option \<times> 'w state" where
  "archive_loop os category archive [] s = (None, s)"
| "archive_loop os category archive (item # items) s =
     (let destdir = path_join ''archive'' archive;
          (e, s1) = (if \<not> isdir os (world s) destdir then os_makedirs os destdir s
                     else (None, s))
      in case e of
           Some x \<Rightarrow> (Some x, s1)
         | None \<Rightarrow>
             (case subprocess_call os [''git'', ''mv'', path_join category item, destdir] s1 of
                (Inl x, s2) \<Rightarrow> (Some x, s2)
              | (Inr rc, s2) \<Rightarrow> archive_loop os category archive items s2))"

text \<open>
  Lines 43 to 54. The result is the exception that ended the call, if any, and the
  state reached.
\<close>

definition process ::
  "'w os_iface \<Rightarrow> (string fset \<Rightarrow> string list) \<Rightarrow> string \<Rightarrow>
   string \<Rightarrow> ref \<Rightarrow> ref \<Rightarrow> ref \<Rightarrow> string \<Rightarrow> 'w state \<Rightarrow> exn option \<times> 'w state" where
  "process os it STABLE category packages testing stable' archive s0 =
     (let (deprecated, unknown, s3) = classify packages testing stable' s0;
          s4 = py_print [PyStr (''['' @ category @ '']:'')] s3;
          s5 = py_print [PyStr (''moved to '' @ STABLE @ '':''),
                         PyList (py_sorted it (deref s4 deprecated))] s4;
          (e, s6) = archive_loop os category archive (it (deref s5 deprecated)) s5
      in case e of
           Some x \<Rightarrow> (Some x, s6)
         | None \<Rightarrow>
             (None, py_print [PyStr ''unknown:'', PyList (py_sorted it (deref s6 unknown))] s6))"

text \<open>
  Lines 40 to 58, from the two reference sets: the four sets are objects on the heap,
  and both calls of \<open>process\<close> get the same references to \<open>testing\<close> and \<open>stable\<close>.
\<close>

definition main ::
  "'w os_iface \<Rightarrow> (string fset \<Rightarrow> string list) \<Rightarrow> (string fset \<Rightarrow> string list) \<Rightarrow> string \<Rightarrow>
   string fset \<Rightarrow> string fset \<Rightarrow> 'w \<Rightarrow> exn option \<times> 'w state" where
  "main os it1 it2 STABLE testing_v stable_v w =
     (let s = \<lparr>heap = [testing_v, stable_v, filters_of os w, explain_of os w],
               out = [], world = w\<rparr>
      in case process os it1 STABLE ''rules'' 2 0 1 STABLE s of
           (Some x, s1) \<Rightarrow> (Some x, s1)
         | (None, s1) \<Rightarrow> process os it2 STABLE ''explain'' 3 0 1 ''explain'' (py_print [] s1))"

section \<open>Events of a run\<close>

fun is_print :: "event \<Rightarrow> bool" where
  "is_print (Print args) = True"
| "is_print (Makedirs path) = False"
| "is_print (Call argv) = False"

fun calls :: "event list \<Rightarrow> string list list" where
  "calls [] = []"
| "calls (Call argv # es) = argv # calls es"
| "calls (Print args # es) = calls es"
| "calls (Makedirs path # es) = calls es"

fun prints :: "event list \<Rightarrow> pyobj list list" where
  "prints [] = []"
| "prints (Print args # es) = args # prints es"
| "prints (Makedirs path # es) = prints es"
| "prints (Call argv # es) = prints es"

text \<open>The names that an event reports: the elements of the lists it prints.\<close>

fun names_of :: "pyobj \<Rightarrow> string list" where
  "names_of (PyStr x) = []"
| "names_of (PyList xs) = xs"

fun listed :: "event \<Rightarrow> string list" where
  "listed (Print args) = concat (map names_of args)"
| "listed (Makedirs path) = []"
| "listed (Call argv) = []"

text \<open>No line is printed after a command has been called.\<close>

fun reports_before_moves :: "event list \<Rightarrow> bool" where
  "reports_before_moves [] = True"
| "reports_before_moves (Call argv # es) = list_all (\<lambda>ev. \<not> is_print ev) es"
| "reports_before_moves (Print args # es) = reports_before_moves es"
| "reports_before_moves (Makedirs path # es) = reports_before_moves es"

text \<open>The events of a run that starts in \<open>s\<close> and ends in \<open>s'\<close>.\<close>

definition events_since :: "'w state \<Rightarrow> 'w state \<Rightarrow> event list" where
  "events_since s s' = drop (length (out s)) (out s')"

text \<open>
  An operating system on which every command starts and ends with some exit status,
  and one on which \<open>makedirs\<close> does not fail.
\<close>

definition starts_commands :: "'w os_iface \<Rightarrow> bool" where
  "starts_commands os = (\<forall>w argv. case call os w argv of Inl e \<Rightarrow> False | Inr r \<Rightarrow> True)"

definition creates_dirs :: "'w os_iface \<Rightarrow> bool" where
  "creates_dirs os = (\<forall>w path. case makedirs os w path of Inl e \<Rightarrow> False | Inr w' \<Rightarrow> True)"

text \<open>
  An operating system for the examples: the state is the list of the directories that
  exist, \<open>dirs\<close> gives the entries of the directories that can be listed, and every
  command ends with the exit status \<open>rc\<close> and changes nothing.
\<close>

definition example_os :: "(string \<rightharpoonup> string list) \<Rightarrow> int \<Rightarrow> string list os_iface" where
  "example_os dirs rc =
     \<lparr>listdir = (\<lambda>w d. case dirs d of None \<Rightarrow> Inl OSError | Some ns \<Rightarrow> Inr ns),
      isdir = (\<lambda>w path. path \<in> set w),
      makedirs = (\<lambda>w path. Inr (path # w)),
      call = (\<lambda>w argv. Inr (rc, w))\<rparr>"

text \<open>
  The end-to-end scenario of the specification as a state: the objects 0, 1 and 2 are
  the local inventory, the current set and the stable set.
\<close>

definition scenario :: "string list state" where
  "scenario = \<lparr>heap = [{|''a'', ''b'', ''c''|}, {|''a''|}, {|''b''|}], out = [], world = []\<rparr>"

text \<open>Two directories for the examples, as \<open>dirs\<close> of \<open>example_os\<close>.\<close>

definition example_dirs :: "string \<rightharpoonup> string list" where
  "example_dirs =
     [''rules'' \<mapsto> [''MyPkg'', ''zz'', ''libraspberrypi0'', ''.gitignore''],
      ''explain'' \<mapsto> [''MyPkg'', ''mypkg'', ''c'']]"

text \<open>The command line of the move of one item, as line 53 builds it.\<close>

definition git_mv :: "string \<Rightarrow> string \<Rightarrow> string \<Rightarrow> string list" where
  "git_mv category archive item =
     [''git'', ''mv'', path_join category item, path_join ''archive'' archive]"

section \<open>What a call of process does\<close>

lemma classify_eq:
  assumes "packages < length (heap s)" "testing < length (heap s)" "stable' < length (heap s)"
  shows "classify packages testing stable' s =
    (Suc (length (heap s)), Suc (Suc (length (heap s))),
     s\<lparr>heap := heap s @
        [deref s packages |-| deref s testing,
         (deref s packages |-| deref s testing) |\<inter>| deref s stable',
         (deref s packages |-| deref s testing) |-| deref s stable']\<rparr>)"
  using assms
  by (simp add: classify_def set_sub_def set_and_def new_set_def deref_def nth_append Let_def)

lemma calls_append: "calls (xs @ ys) = calls xs @ calls ys"
  by (induction xs rule: calls.induct) simp_all

lemma archive_loop_run:
  "archive_loop os category archive items s = (e, s') \<Longrightarrow>
   heap s' = heap s \<and>
   (\<exists>evs. out s' = out s @ evs \<and> list_all (\<lambda>ev. \<not> is_print ev) evs \<and>
      (\<exists>k. calls evs = map (git_mv category archive) (take k items)) \<and>
      (e = None \<longrightarrow> calls evs = map (git_mv category archive) items))"
proof (induction items arbitrary: s e s')
  case Nil
  then show ?case by auto
next
  case (Cons item items)
  let ?d = "path_join ''archive'' archive"
  let ?argv = "[''git'', ''mv'', path_join category item, ?d]"
  obtain e1 s1 where s1: "(if \<not> isdir os (world s) ?d then os_makedirs os ?d s else (None, s)) = (e1, s1)"
    by (cases "(if \<not> isdir os (world s) ?d then os_makedirs os ?d s else (None, s))") 
  have pre: "heap s1 = heap s \<and> (\<exists>m. out s1 = out s @ m \<and> list_all (\<lambda>ev. \<not> is_print ev) m \<and> calls m = [])"
    using s1 by (auto simp: os_makedirs_def Let_def split: if_splits sum.splits)
  then obtain m where m: "out s1 = out s @ m" "list_all (\<lambda>ev. \<not> is_print ev) m" "calls m = []"
    and h1: "heap s1 = heap s" by blast
  show ?case
  proof (cases e1)
    case (Some x)
    with Cons.prems s1 have "e = Some x" "s' = s1" by (auto simp: Let_def)
    with m h1 show ?thesis by (auto intro!: exI[of _ m] exI[of _ 0])
  next
    case None
    obtain r s2 where s2: "subprocess_call os ?argv s1 = (r, s2)"
      by (cases "subprocess_call os ?argv s1")
    then have "out s2 = out s1 @ [Call ?argv]" and h2: "heap s2 = heap s1"
      by (auto simp: subprocess_call_def Let_def split: sum.splits prod.splits)
    then have o2: "out s2 = out s1 @ [Call (git_mv category archive item)]"
      by (simp add: git_mv_def)
    show ?thesis
    proof (cases r)
      case (Inl x)
      with Cons.prems s1 None s2 have "e = Some x" "s' = s2" by (auto simp: Let_def)
      with m h1 o2 h2 show ?thesis
        by (auto simp: calls_append
            intro!: exI[of _ "m @ [Call (git_mv category archive item)]"] exI[of _ 1])
    next
      case (Inr rc)
      with Cons.prems s1 None s2 have "archive_loop os category archive items s2 = (e, s')"
        by (auto simp: Let_def)
      from Cons.IH [OF this] obtain evs k where
        evs: "heap s' = heap s2" "out s' = out s2 @ evs" "list_all (\<lambda>ev. \<not> is_print ev) evs"
          "calls evs = map (git_mv category archive) (take k items)"
          "e = None \<longrightarrow> calls evs = map (git_mv category archive) items"
        by blast
      with m h1 o2 h2 show ?thesis
        by (auto simp: calls_append
            intro!: exI[of _ "m @ [Call (git_mv category archive item)] @ evs"] exI[of _ "Suc k"])
    qed
  qed
qed


lemma archive_loop_completes:
  assumes "starts_commands os" "creates_dirs os"
  shows "fst (archive_loop os category archive items s) = None"
proof (induction items arbitrary: s)
  case Nil
  show ?case by simp
next
  case (Cons item items)
  let ?d = "path_join ''archive'' archive"
  have mk: "\<And>s. fst (os_makedirs os ?d s) = None"
    using assms(2) by (auto simp: creates_dirs_def os_makedirs_def Let_def split: sum.splits)
  have cl: "\<And>argv s. \<exists>rc s2. subprocess_call os argv s = (Inr rc, s2)"
    using assms(1) by (auto simp: starts_commands_def subprocess_call_def Let_def split: sum.splits)
  obtain e1 s1 where s1: "(if \<not> isdir os (world s) ?d then os_makedirs os ?d s else (None, s)) = (e1, s1)"
    by (cases "(if \<not> isdir os (world s) ?d then os_makedirs os ?d s else (None, s))")
  then have e1: "e1 = None" using mk [of s] by (auto split: if_splits)
  obtain rc s2 where s2: "subprocess_call os [''git'', ''mv'', path_join category item, ?d] s1 = (Inr rc, s2)"
    using cl by blast
  show ?case using s1 e1 s2 Cons.IH [of s2] by (simp add: Let_def)
qed

lemma process_run:
  fixes s0 :: "'w state"
  assumes "packages < length (heap s0)" "testing < length (heap s0)" "stable' < length (heap s0)"
  defines "u0 \<equiv> deref s0 packages |-| deref s0 testing"
  defines "d \<equiv> u0 |\<inter>| deref s0 stable'"
  defines "u \<equiv> u0 |-| deref s0 stable'"
  shows "\<exists>e s' evs k.
     process os it STABLE category packages testing stable' archive s0 = (e, s') \<and>
     heap s' = heap s0 @ [u0, d, u] \<and>
     out s' = out s0 @
        [Print [PyStr (''['' @ category @ '']:'')],
         Print [PyStr (''moved to '' @ STABLE @ '':''), PyList (py_sorted it d)]] @ evs @
        (case e of None \<Rightarrow> [Print [PyStr ''unknown:'', PyList (py_sorted it u)]]
                 | Some x \<Rightarrow> []) \<and>
     list_all (\<lambda>ev. \<not> is_print ev) evs \<and>
     calls evs = map (git_mv category archive) (take k (it d)) \<and>
     (e = None \<longrightarrow> calls evs = map (git_mv category archive) (it d))"
proof -
  define h1 where "h1 = [PyStr (''['' @ category @ '']:'')]"
  define h2 where "h2 = PyStr (''moved to '' @ STABLE @ '':'')"
  define h3 where "h3 = PyStr ''unknown:''"
  let ?n = "length (heap s0)"
  let ?s3 = "s0\<lparr>heap := heap s0 @ [u0, d, u]\<rparr>"
  let ?s4 = "py_print h1 ?s3"
  let ?s5 = "py_print [h2, PyList (py_sorted it d)] ?s4"
  have c: "classify packages testing stable' s0 = (Suc ?n, Suc (Suc ?n), ?s3)"
    using assms(1-3) by (simp add: classify_eq u0_def d_def u_def)
  have dd: "deref ?s4 (Suc ?n) = d" "deref ?s5 (Suc ?n) = d"
    by (simp_all add: deref_def py_print_def nth_append)
  obtain e s6 where l: "archive_loop os category archive (it d) ?s5 = (e, s6)"
    by (cases "archive_loop os category archive (it d) ?s5")
  from archive_loop_run [OF l] obtain evs k where
    evs: "heap s6 = heap ?s5" "out s6 = out ?s5 @ evs" "list_all (\<lambda>ev. \<not> is_print ev) evs"
      "calls evs = map (git_mv category archive) (take k (it d))"
      "e = None \<longrightarrow> calls evs = map (git_mv category archive) (it d)"
    by blast
  have du: "deref s6 (Suc (Suc ?n)) = u"
    using evs(1) by (simp add: deref_def py_print_def nth_append)
  let ?s' = "case e of None \<Rightarrow> py_print [h3, PyList (py_sorted it u)] s6 | Some x \<Rightarrow> s6"
  have "process os it STABLE category packages testing stable' archive s0 =
     (let (deprecated, unknown, s3) = classify packages testing stable' s0;
          s4 = py_print h1 s3;
          s5 = py_print [h2, PyList (py_sorted it (deref s4 deprecated))] s4;
          (e, s6) = archive_loop os category archive (it (deref s5 deprecated)) s5
      in case e of
           Some x \<Rightarrow> (Some x, s6)
         | None \<Rightarrow> (None, py_print [h3, PyList (py_sorted it (deref s6 unknown))] s6))"
    by (simp only: process_def h1_def h2_def h3_def)
  then have p: "process os it STABLE category packages testing stable' archive s0 = (e, ?s')"
    by (simp add: c dd l du Let_def split: option.splits)
  have "heap ?s' = heap s0 @ [u0, d, u]"
    using evs(1) by (simp add: py_print_def split: option.splits)
  moreover have "out ?s' = out s0 @ [Print h1, Print [h2, PyList (py_sorted it d)]] @ evs @
        (case e of None \<Rightarrow> [Print [h3, PyList (py_sorted it u)]] | Some x \<Rightarrow> [])"
    using evs(2) by (simp add: py_print_def split: option.splits)
  ultimately show ?thesis using p evs(3-5) unfolding h1_def h2_def h3_def by blast
qed

lemma process_completes:
  assumes "starts_commands os" "creates_dirs os"
  shows "fst (process os it STABLE category packages testing stable' archive s0) = None"
proof -
  have "\<And>items s x s'. archive_loop os category archive items s \<noteq> (Some x, s')"
    using archive_loop_completes [OF assms, of category archive] by (metis fst_conv option.distinct(1))
  then show ?thesis
    by (auto simp: process_def Let_def split: prod.splits option.splits)
qed

lemma events_since_append: "out s' = out s @ evs \<Longrightarrow> events_since s s' = evs"
  by (simp add: events_since_def)

lemma prints_append: "prints (xs @ ys) = prints xs @ prints ys"
  by (induction xs rule: prints.induct) simp_all

lemma prints_no_print: "list_all (\<lambda>ev. \<not> is_print ev) evs \<Longrightarrow> prints evs = []"
  by (induction evs rule: prints.induct) simp_all

lemma iteration_order_sorted: "iteration_order sorted_list_of_fset"
  by (simp add: iteration_order_def sorted_list_of_fset.rep_eq)

lemma py_sorted_eq: "iteration_order it \<Longrightarrow> py_sorted it v = sorted_list_of_fset v"
proof -
  assume "iteration_order it"
  then have d: "distinct (it v)" and s: "set (it v) = fset v"
    by (simp_all add: iteration_order_def)
  have "sort (it v) = sorted_list_of_set (set (it v))"
    using d by (simp add: sorted_list_of_set_sort_remdups distinct_remdups_id)
  then show ?thesis by (simp add: py_sorted_def s sorted_list_of_fset.rep_eq)
qed

lemma example_os_total: "starts_commands (example_os dirs rc)" "creates_dirs (example_os dirs rc)"
  by (simp_all add: starts_commands_def creates_dirs_def example_os_def)

lemma listed_no_print: "list_all (\<lambda>ev. \<not> is_print ev) evs \<Longrightarrow> concat (map listed evs) = []"
proof (induction evs)
  case Nil
  show ?case by simp
next
  case (Cons ev evs)
  then show ?case by (cases ev) simp_all
qed

lemma process_reports:
  fixes s0 :: "'w state"
  assumes "packages < length (heap s0)" "testing < length (heap s0)" "stable' < length (heap s0)"
    and "iteration_order it"
    and "process os it STABLE category packages testing stable' archive s0 = (e, s')"
  shows "set (concat (map listed (events_since s0 s'))) \<subseteq>
           fset (deref s0 packages |-| deref s0 testing) \<and>
         set (calls (events_since s0 s')) \<subseteq>
           git_mv category archive `
             fset ((deref s0 packages |-| deref s0 testing) |\<inter>| deref s0 stable')"
proof -
  let ?d = "(deref s0 packages |-| deref s0 testing) |\<inter>| deref s0 stable'"
  let ?u = "(deref s0 packages |-| deref s0 testing) |-| deref s0 stable'"
  from process_run [OF assms(1-3), of os it STABLE category archive] assms(5)
  obtain evs k where
    o: "out s' = out s0 @
        [Print [PyStr (''['' @ category @ '']:'')],
         Print [PyStr (''moved to '' @ STABLE @ '':''), PyList (py_sorted it ?d)]] @ evs @
        (case e of None \<Rightarrow> [Print [PyStr ''unknown:'', PyList (py_sorted it ?u)]]
                 | Some x \<Rightarrow> [])"
    and n: "list_all (\<lambda>ev. \<not> is_print ev) evs"
    and c: "calls evs = map (git_mv category archive) (take k (it ?d))"
    by auto
  have i: "set (it ?d) = fset ?d" using assms(4) by (simp add: iteration_order_def)
  have ps: "\<And>v. set (py_sorted it v) = fset v"
    by (simp add: py_sorted_eq [OF assms(4)] sorted_list_of_fset.rep_eq)
  have 1: "set (concat (map listed (events_since s0 s'))) \<subseteq>
      fset (deref s0 packages |-| deref s0 testing)"
    unfolding events_since_append [OF o]
    by (auto simp: listed_no_print [OF n] ps split: option.splits)
  have "set (take k (it ?d)) \<subseteq> fset ?d" using i set_take_subset by metis
  then have 2: "set (calls (events_since s0 s')) \<subseteq> git_mv category archive ` fset ?d"
    unfolding events_since_append [OF o]
    by (auto simp: calls_append c split: option.splits)
  from 1 2 show ?thesis by blast
qed

lemma process_heap:
  fixes s0 :: "'w state"
  assumes "packages < length (heap s0)" "testing < length (heap s0)" "stable' < length (heap s0)"
    and "process os it STABLE category packages testing stable' archive s0 = (e, s')"
  shows "heap s' = heap s0 @
      [deref s0 packages |-| deref s0 testing,
       (deref s0 packages |-| deref s0 testing) |\<inter>| deref s0 stable',
       (deref s0 packages |-| deref s0 testing) |-| deref s0 stable']"
  using process_run [OF assms(1-3), of os it STABLE category archive] assms(4) by auto

lemma main_run:
  fixes w :: 'w and os :: "'w os_iface" and testing_v stable_v :: "string fset"
  defines "s \<equiv> \<lparr>heap = [testing_v, stable_v, filters_of os w, explain_of os w],
               out = [], world = w\<rparr>"
  assumes "main os it1 it2 STABLE testing_v stable_v w = (e, s')"
  shows "\<exists>e1 s1. process os it1 STABLE ''rules'' 2 0 1 STABLE s = (e1, s1) \<and>
     (case e1 of
        Some x \<Rightarrow> e = Some x \<and> s' = s1
      | None \<Rightarrow> process os it2 STABLE ''explain'' 3 0 1 ''explain'' (py_print [] s1) = (e, s'))"
proof -
  obtain e1 s1 where p: "process os it1 STABLE ''rules'' 2 0 1 STABLE s = (e1, s1)"
    by (cases "process os it1 STABLE ''rules'' 2 0 1 STABLE s")
  have "main os it1 it2 STABLE testing_v stable_v w =
      (case process os it1 STABLE ''rules'' 2 0 1 STABLE s of
           (Some x, s1) \<Rightarrow> (Some x, s1)
         | (None, s1) \<Rightarrow> process os it2 STABLE ''explain'' 3 0 1 ''explain'' (py_print [] s1))"
    by (simp only: main_def s_def Let_def)
  with assms(2) p have "(case e1 of
        Some x \<Rightarrow> e = Some x \<and> s' = s1
      | None \<Rightarrow> process os it2 STABLE ''explain'' 3 0 1 ''explain'' (py_print [] s1) = (e, s'))"
    by (auto split: option.splits)
  with p show ?thesis by blast
qed

lemma process_out:
  fixes s0 :: "'w state"
  assumes "packages < length (heap s0)" "testing < length (heap s0)" "stable' < length (heap s0)"
    and "process os it STABLE category packages testing stable' archive s0 = (e, s')"
  shows "out s' = out s0 @ events_since s0 s'"
  using process_run [OF assms(1-3), of os it STABLE category archive] assms(4)
  by (auto simp: events_since_def)

lemma process_nothing_to_move:
  fixes s0 :: "'w state"
  assumes "packages < length (heap s0)" "testing < length (heap s0)" "stable' < length (heap s0)"
    and "it ((deref s0 packages |-| deref s0 testing) |\<inter>| deref s0 stable') = []"
  shows "process os it STABLE category packages testing stable' archive s0 =
     (None, s0\<lparr>heap := heap s0 @
        [deref s0 packages |-| deref s0 testing,
         (deref s0 packages |-| deref s0 testing) |\<inter>| deref s0 stable',
         (deref s0 packages |-| deref s0 testing) |-| deref s0 stable'],
       out := out s0 @
        [Print [PyStr (''['' @ category @ '']:'')],
         Print [PyStr (''moved to '' @ STABLE @ '':''), PyList (sort [])],
         Print [PyStr ''unknown:'',
           PyList (py_sorted it ((deref s0 packages |-| deref s0 testing) |-| deref s0 stable'))]]\<rparr>)"
proof -
  define h1 where "h1 = [PyStr (''['' @ category @ '']:'')]"
  define h2 where "h2 = PyStr (''moved to '' @ STABLE @ '':'')"
  define h3 where "h3 = PyStr ''unknown:''"
  have "process os it STABLE category packages testing stable' archive s0 =
     (let (deprecated, unknown, s3) = classify packages testing stable' s0;
          s4 = py_print h1 s3;
          s5 = py_print [h2, PyList (py_sorted it (deref s4 deprecated))] s4;
          (e, s6) = archive_loop os category archive (it (deref s5 deprecated)) s5
      in case e of
           Some x \<Rightarrow> (Some x, s6)
         | None \<Rightarrow> (None, py_print [h3, PyList (py_sorted it (deref s6 unknown))] s6))"
    by (simp only: process_def h1_def h2_def h3_def)
  then have "process os it STABLE category packages testing stable' archive s0 =
     (None, s0\<lparr>heap := heap s0 @
        [deref s0 packages |-| deref s0 testing,
         (deref s0 packages |-| deref s0 testing) |\<inter>| deref s0 stable',
         (deref s0 packages |-| deref s0 testing) |-| deref s0 stable'],
       out := out s0 @
        [Print h1, Print [h2, PyList (sort [])],
         Print [h3,
           PyList (py_sorted it ((deref s0 packages |-| deref s0 testing) |-| deref s0 stable'))]]\<rparr>)"
    using assms(4)
    by (simp add: classify_eq [OF assms(1-3)] Let_def py_print_def deref_def nth_append py_sorted_def)
  then show ?thesis unfolding h1_def h2_def h3_def .
qed

section \<open>The inventory scan\<close>

lemma lower_fixed_iff: "s = lower s \<longleftrightarrow> (\<forall>c \<in> set s. lower_char c = c)"
proof -
  have "s = lower s \<longleftrightarrow> map lower_char s = map id s" by (auto simp: lower_def)
  also have "\<dots> \<longleftrightarrow> (\<forall>c \<in> set s. lower_char c = id c)" by (rule map_eq_conv)
  finally show ?thesis by simp
qed

lemma lower_char_fixed: "lower_char c = c \<longleftrightarrow> \<not> isupper c"
proof (cases "isupper c")
  case False
  then show ?thesis by (simp add: lower_char_def)
next
  case True
  define n where "n = (of_char c :: nat)"
  from True have b: "n \<le> 222" by (auto simp: isupper_def n_def Let_def)
  have "(of_char (char_of (n + 32)) :: nat) = (n + 32) mod 256" by simp
  also have "\<dots> = n + 32" using b by simp
  finally have "(of_char (char_of (n + 32)) :: nat) \<noteq> of_char c" by (simp add: n_def)
  then have "char_of (n + 32) \<noteq> c" by auto
  with True show ?thesis by (simp add: lower_char_def n_def)
qed

lemma not_lower_iff: "n \<noteq> lower n \<longleftrightarrow> (\<exists>c \<in> set n. isupper c)"
  by (auto simp: lower_fixed_iff lower_char_fixed)

lemma set_basename: "set (basename p) \<subseteq> set p" "CHR ''/'' \<notin> set (basename p)"
  by (auto simp: basename_def dest: set_takeWhileD)

lemma basename_lower: "f = lower f \<Longrightarrow> basename f = lower (basename f)"
  using set_basename(1) [of f] by (auto simp: lower_fixed_iff)

lemma not_startswith_slash: "CHR ''/'' \<notin> set n \<Longrightarrow> \<not> startswith n ''/''"
  by (cases n) (auto simp: startswith_def)

lemma path_join_category:
  "c = ''rules'' \<or> c = ''explain'' \<Longrightarrow>
   path_join c x = (if startswith x ''/'' then x else c @ ''/'' @ x)"
  by (auto simp: path_join_def endswith_def)

lemma basename_joined:
  assumes "CHR ''/'' \<notin> set n"
  shows "basename (c @ CHR ''/'' # n) = n"
proof -
  have "takeWhile (\<lambda>x. x \<noteq> CHR ''/'') (rev n @ CHR ''/'' # rev c) =
      rev n @ takeWhile (\<lambda>x. x \<noteq> CHR ''/'') (CHR ''/'' # rev c)"
    by (rule takeWhile_append2) (use assms in auto)
  then show ?thesis by (simp add: basename_def)
qed

lemma glob_star_category:
  assumes "c = ''rules'' \<or> c = ''explain''" "listdir os w c = Inr names"
    "\<forall>n \<in> set names. entry_name n"
  shows "glob_star os w c = map (\<lambda>n. c @ CHR ''/'' # n) (filter (\<lambda>n. \<not> ishidden n) names)"
proof -
  have "\<And>n. n \<in> set names \<Longrightarrow> path_join c n = c @ CHR ''/'' # n"
    using assms(1,3) by (simp add: path_join_category not_startswith_slash entry_name_def)
  then show ?thesis using assms(2) by (simp add: glob_star_def)
qed

lemma basename_glob_star:
  assumes "c = ''rules'' \<or> c = ''explain''" "listdir os w c = Inr names"
    "\<forall>n \<in> set names. entry_name n"
  shows "map basename (glob_star os w c) = filter (\<lambda>n. \<not> ishidden n) names"
proof -
  have "map (basename \<circ> (\<lambda>n. c @ CHR ''/'' # n)) (filter (\<lambda>n. \<not> ishidden n) names) =
      filter (\<lambda>n. \<not> ishidden n) names"
    by (rule map_idI) (use assms(3) in \<open>auto simp: basename_joined entry_name_def\<close>)
  then show ?thesis unfolding glob_star_category [OF assms] by simp
qed

lemma filters_of_eq:
  assumes "listdir os w ''rules'' = Inr names" "\<forall>n \<in> set names. entry_name n"
  shows "fset (filters_of os w) = {n \<in> set names. \<not> ishidden n}"
  unfolding filters_of_def basename_glob_star [OF _ assms, simplified]
  by (auto simp: fset_of_list.rep_eq)

lemma lower_joined: "lower (c @ CHR ''/'' # n) = lower c @ CHR ''/'' # lower n"
  by (simp add: lower_def lower_char_def isupper_def)

lemma explain_of_eq:
  assumes "listdir os w ''explain'' = Inr names" "\<forall>n \<in> set names. entry_name n"
  shows "fset (explain_of os w) = {n \<in> set names. \<not> ishidden n \<and> n = lower n}"
proof -
  define c where "c = ''explain''"
  have cl: "lower c = c" by (simp add: c_def lower_def lower_char_def isupper_def)
  have cc: "c = ''rules'' \<or> c = ''explain''" by (simp add: c_def)
  let ?xs = "filter (\<lambda>n. \<not> ishidden n) names"
  have g: "glob_star os w c = map (\<lambda>n. c @ CHR ''/'' # n) ?xs"
    using assms unfolding c_def by (intro glob_star_category) simp_all
  have "map basename (filter (\<lambda>f. f = lower f) (map (\<lambda>n. c @ CHR ''/'' # n) ?xs)) =
      map (basename \<circ> (\<lambda>n. c @ CHR ''/'' # n)) (filter (\<lambda>n. n = lower n) ?xs)"
    by (simp add: filter_map comp_def lower_joined cl)
  also have "\<dots> = filter (\<lambda>n. n = lower n) ?xs"
    by (rule map_idI) (use assms(2) in \<open>auto simp: basename_joined entry_name_def\<close>)
  finally have "map basename (filter (\<lambda>f. f = lower f) (glob_star os w c)) =
      filter (\<lambda>n. n = lower n) ?xs"
    unfolding g .
  then show ?thesis
    unfolding explain_of_def c_def by (auto simp: fset_of_list.rep_eq)
qed

lemma explain_of_lower: "n |\<in>| explain_of os w \<Longrightarrow> n = lower n"
proof -
  assume "n |\<in>| explain_of os w"
  then obtain f where "f = lower f" "n = basename f"
    by (auto simp: explain_of_def fset_of_list.rep_eq)
  then show ?thesis using basename_lower by blast
qed

lemma scan_no_slash:
  "n |\<in>| explain_of os w \<Longrightarrow> CHR ''/'' \<notin> set n"
  "n |\<in>| filters_of os w \<Longrightarrow> CHR ''/'' \<notin> set n"
  using set_basename(2) by (auto simp: explain_of_def filters_of_def fset_of_list.rep_eq)

lemma scan_missing:
  "listdir os w ''rules'' = Inl x \<Longrightarrow> filters_of os w = {||}"
  "listdir os w ''explain'' = Inl x \<Longrightarrow> explain_of os w = {||}"
  by (simp_all add: filters_of_def explain_of_def glob_star_def)

lemma git_mv_inj:
  assumes "c = ''rules'' \<or> c = ''explain''" "c' = ''rules'' \<or> c' = ''explain''"
    and "CHR ''/'' \<notin> set item" "git_mv c a n = git_mv c' a' item"
  shows "c = c' \<and> n = item"
proof -
  have "path_join c n = c' @ CHR ''/'' # item"
    using assms(2-4) by (simp add: git_mv_def path_join_category not_startswith_slash)
  then show ?thesis
    using assms(1,2) by (auto simp: path_join_category startswith_def split: if_splits)
qed

section \<open>The stable set\<close>

lemma startswith_tag_colon: "startswith l ''Package:'' \<Longrightarrow> CHR '':'' \<in> set l"
proof -
  define n where "n = length ''Package:''"
  assume "startswith l ''Package:''"
  then have "take n l = ''Package:''" by (simp only: startswith_def n_def)
  then have "CHR '':'' \<in> set (take n l)" by simp
  then show ?thesis by (rule in_set_takeD)
qed

lemma getitem_split1:
  "getitem (split1 c s) (Suc 0) =
     (if c \<in> set s then Inr (tl (dropWhile (\<lambda>x. x \<noteq> c) s)) else Inl IndexError)"
proof (cases "dropWhile (\<lambda>x. x \<noteq> c) s")
  case Nil
  then have "c \<notin> set s" by (auto simp: dropWhile_eq_Nil_conv)
  then show ?thesis unfolding split1_def getitem_def Nil by simp
next
  case (Cons a r)
  then have "c \<in> set s" by (metis (mono_tags, lifting) dropWhile_eq_Nil_conv list.distinct(1))
  then show ?thesis unfolding split1_def getitem_def Cons by simp
qed

lemma stable_loop_eq:
  "stable_loop ls acc =
     Inr (acc |\<union>| fset_of_list (map (\<lambda>l. strip (after_first_colon l))
       (filter (\<lambda>l. startswith l ''Package:'') ls)))"
proof (induction ls arbitrary: acc)
  case Nil
  show ?case by simp
next
  case (Cons l ls)
  show ?case
  proof (cases "startswith l ''Package:''")
    case True
    then have "getitem (split1 CHR '':'' l) 1 = Inr (after_first_colon l)"
      by (simp add: getitem_split1 startswith_tag_colon after_first_colon_def)
    with True show ?thesis by (simp add: Cons.IH)
  next
    case False
    then show ?thesis by (simp add: Cons.IH)
  qed
qed

text \<open>
  C6. For every text of the index file, reading it does not raise and the stable set is
  the set of the trimmed remainders after the first colon of the lines that begin with
  \<open>Package:\<close>; no other line contributes, and a text without such a line gives the
  empty set.
\<close>

theorem stable_set_parse:
  "stable_of index = Inr (stable_spec index) \<and>
   ((\<forall>l \<in> set (text_lines index). \<not> startswith l ''Package:'') \<longrightarrow> stable_of index = Inr {||})"
  by (simp add: stable_of_def stable_spec_def stable_loop_eq filter_False)

theorem stable_set_parse_witness:
  "list_all (\<lambda>l. \<not> startswith l ''Package:'') (text_lines ''Version: 1\<newline>Pack: c'') \<and>
   stable_of ''Version: 1\<newline>Pack: c'' = Inr {||}"
proof -
  have h: "list_all (\<lambda>l. \<not> startswith l ''Package:'') (text_lines ''Version: 1\<newline>Pack: c'')"
    by code_simp
  then have "\<forall>l \<in> set (text_lines ''Version: 1\<newline>Pack: c''). \<not> startswith l ''Package:''"
    by (simp only: list_all_iff)
  with stable_set_parse [of "''Version: 1\<newline>Pack: c''"] h show ?thesis by blast
qed

section \<open>Classification\<close>

text \<open>
  C1. For every local inventory, current set and stable set, lines 44 to 46 compute
  deprecated as (local minus current) intersected with stable, and unknown as (local
  minus current) minus stable. The example after it is the two scenarios of the
  specification.
\<close>

theorem classify_sets:
  assumes "packages < length (heap s)" "testing < length (heap s)" "stable' < length (heap s)"
    and "classify packages testing stable' s = (deprecated, unknown, s')"
  shows "deref s' deprecated = (deref s packages |-| deref s testing) |\<inter>| deref s stable' \<and>
         deref s' unknown = (deref s packages |-| deref s testing) |-| deref s stable'"
  using assms(4) unfolding classify_eq [OF assms(1-3)]
  by (auto simp: deref_def nth_append)

theorem classify_sets_witness:
  "(case classify 0 1 2 \<lparr>heap = [{|''a'', ''b'', ''c''|}, {|''a''|}, {|''b''|}], out = [], world = ()\<rparr> of
      (deprecated, unknown, s') \<Rightarrow> deref s' deprecated = {|''b''|} \<and> deref s' unknown = {|''c''|}) \<and>
   (case classify 0 1 2 \<lparr>heap = [{|''a'', ''b''|}, {|''a''|}, {||}], out = [], world = ()\<rparr> of
      (deprecated, unknown, s') \<Rightarrow> deref s' deprecated = {||} \<and> deref s' unknown = {|''b''|})"
proof -
  let ?s = "\<lparr>heap = [{|''a'', ''b'', ''c''|}, {|''a''|}, {|''b''|}], out = [], world = ()\<rparr>"
  let ?t = "\<lparr>heap = [{|''a'', ''b''|}, {|''a''|}, {||}], out = [], world = ()\<rparr>"
  obtain d u s' where c: "classify 0 1 2 ?s = (d, u, s')" by (cases "classify 0 1 2 ?s")
  have "deref s' d = ({|''a'', ''b'', ''c''|} |-| {|''a''|}) |\<inter>| {|''b''|} \<and>
        deref s' u = ({|''a'', ''b'', ''c''|} |-| {|''a''|}) |-| {|''b''|}"
    using classify_sets [OF _ _ _ c] by (simp add: deref_def)
  then have 1: "deref s' d = {|''b''|} \<and> deref s' u = {|''c''|}" by auto
  obtain d2 u2 t' where c2: "classify 0 1 2 ?t = (d2, u2, t')" by (cases "classify 0 1 2 ?t")
  have "deref t' d2 = ({|''a'', ''b''|} |-| {|''a''|}) |\<inter>| {||} \<and>
        deref t' u2 = ({|''a'', ''b''|} |-| {|''a''|}) |-| {||}"
    using classify_sets [OF _ _ _ c2] by (simp add: deref_def)
  then have 2: "deref t' d2 = {||} \<and> deref t' u2 = {|''b''|}" by auto
  show ?thesis unfolding c c2 prod.case using 1 2 by blast
qed

text \<open>
  C2. The deprecated and the unknown set are disjoint, and together with the local
  entries that are current they make up the local inventory: every local entry is in
  exactly one of the three.
\<close>

theorem classification_partition:
  assumes "packages < length (heap s)" "testing < length (heap s)" "stable' < length (heap s)"
    and "classify packages testing stable' s = (deprecated, unknown, s')"
  shows "deref s' deprecated |\<inter>| deref s' unknown = {||} \<and>
         deref s' deprecated |\<union>| deref s' unknown |\<union>| (deref s packages |\<inter>| deref s testing)
           = deref s packages \<and>
         deref s' deprecated |\<inter>| (deref s packages |\<inter>| deref s testing) = {||} \<and>
         deref s' unknown |\<inter>| (deref s packages |\<inter>| deref s testing) = {||}"
proof -
  have "deref s' deprecated = (deref s packages |-| deref s testing) |\<inter>| deref s stable'"
    and "deref s' unknown = (deref s packages |-| deref s testing) |-| deref s stable'"
    using assms(4) unfolding classify_eq [OF assms(1-3)] by (auto simp: deref_def nth_append)
  then show ?thesis by auto
qed

theorem classification_partition_witness:
  "(case classify 0 1 2 \<lparr>heap = [{|''a'', ''b'', ''c''|}, {|''a'', ''x''|}, {|''b'', ''a''|}], out = [], world = ()\<rparr> of
      (deprecated, unknown, s') \<Rightarrow>
        deref s' deprecated |\<inter>| deref s' unknown = {||} \<and>
        deref s' deprecated |\<union>| deref s' unknown |\<union>| {|''a''|} = {|''a'', ''b'', ''c''|})"
proof -
  let ?s = "\<lparr>heap = [{|''a'', ''b'', ''c''|}, {|''a'', ''x''|}, {|''b'', ''a''|}], out = [], world = ()\<rparr>"
  obtain d u s' where c: "classify 0 1 2 ?s = (d, u, s')" by (cases "classify 0 1 2 ?s")
  have i: "{|''a'', ''b'', ''c''|} |\<inter>| {|''a'', ''x''|} = {|''a''|}" by auto
  have "deref s' d |\<inter>| deref s' u = {||} \<and>
        deref s' d |\<union>| deref s' u |\<union>| ({|''a'', ''b'', ''c''|} |\<inter>| {|''a'', ''x''|}) = {|''a'', ''b'', ''c''|}"
    using classification_partition [OF _ _ _ c] by (simp add: deref_def)
  then show ?thesis unfolding c prod.case i by blast
qed

section \<open>The order of the reports and the moves\<close>

text \<open>
  C3, as the code has it. In a call of \<open>process\<close> the category name and the deprecated
  report are printed first, then come the events of the archive loop, none of which
  prints, and the unknown report is printed after the loop, as the last event of a call
  that no exception ends. Every command of the call is called inside the loop, so after
  the deprecated report and before the unknown report.
\<close>

theorem report_move_order:
  fixes s0 :: "'w state"
  assumes "packages < length (heap s0)" "testing < length (heap s0)" "stable' < length (heap s0)"
    and "process os it STABLE category packages testing stable' archive s0 = (e, s')"
  shows "\<exists>evs. events_since s0 s' =
       [Print [PyStr (''['' @ category @ '']:'')],
        Print [PyStr (''moved to '' @ STABLE @ '':''),
               PyList (py_sorted it ((deref s0 packages |-| deref s0 testing) |\<inter>| deref s0 stable'))]]
       @ evs @
       (case e of
          None \<Rightarrow> [Print [PyStr ''unknown:'',
                     PyList (py_sorted it ((deref s0 packages |-| deref s0 testing) |-| deref s0 stable'))]]
        | Some x \<Rightarrow> []) \<and>
     list_all (\<lambda>ev. \<not> is_print ev) evs \<and>
     calls (events_since s0 s') = calls evs"
proof -
  from process_run [OF assms(1-3), of os it STABLE category archive] assms(4)
  obtain evs where
    o: "out s' = out s0 @
       [Print [PyStr (''['' @ category @ '']:'')],
        Print [PyStr (''moved to '' @ STABLE @ '':''),
               PyList (py_sorted it ((deref s0 packages |-| deref s0 testing) |\<inter>| deref s0 stable'))]]
       @ evs @
       (case e of
          None \<Rightarrow> [Print [PyStr ''unknown:'',
                     PyList (py_sorted it ((deref s0 packages |-| deref s0 testing) |-| deref s0 stable'))]]
        | Some x \<Rightarrow> [])"
    and n: "list_all (\<lambda>ev. \<not> is_print ev) evs"
    by auto
  have "calls (events_since s0 s') = calls evs"
    unfolding events_since_append [OF o] by (simp add: calls_append split: option.splits)
  with events_since_append [OF o] n show ?thesis by blast
qed


theorem report_move_order_witness:
  "\<exists>evs. events_since scenario
       (snd (process (example_os Map.empty 0) sorted_list_of_fset ''trixie'' ''rules'' 0 1 2 ''trixie'' scenario)) =
       [Print [PyStr ''[rules]:''], Print [PyStr ''moved to trixie:'', PyList [''b'']]]
       @ evs @ [Print [PyStr ''unknown:'', PyList [''c'']]] \<and>
     list_all (\<lambda>ev. \<not> is_print ev) evs \<and>
     calls evs = [[''git'', ''mv'', ''rules/b'', ''archive/trixie'']]"
proof -
  let ?r = "process (example_os Map.empty 0) sorted_list_of_fset ''trixie'' ''rules'' 0 1 2 ''trixie'' scenario"
  have p: "?r = (None, snd ?r)" by code_simp
  have h: "0 < length (heap scenario)" "1 < length (heap scenario)" "2 < length (heap scenario)"
    by (simp_all add: scenario_def)
  have d: "py_sorted sorted_list_of_fset ((deref scenario 0 |-| deref scenario 1) |\<inter>| deref scenario 2) = [''b'']"
    by code_simp
  have u: "py_sorted sorted_list_of_fset ((deref scenario 0 |-| deref scenario 1) |-| deref scenario 2) = [''c'']"
    by code_simp
  have c: "calls (events_since scenario (snd ?r)) = [[''git'', ''mv'', ''rules/b'', ''archive/trixie'']]"
    by code_simp
  from report_move_order [OF h p] obtain evs where
    e: "events_since scenario (snd ?r) =
         [Print [PyStr ''[rules]:''], Print [PyStr ''moved to trixie:'', PyList [''b'']]]
         @ evs @ [Print [PyStr ''unknown:'', PyList [''c'']]]"
      "list_all (\<lambda>ev. \<not> is_print ev) evs"
      "calls evs = [[''git'', ''mv'', ''rules/b'', ''archive/trixie'']]"
    unfolding d u c by auto
  then show ?thesis by blast
qed

text \<open>
  C3 as stated, that both reports are printed before any move, fails in the scenario:
  the unknown report follows the move of \<open>b\<close>.
\<close>

theorem reports_before_moves_counterexample:
  "out (snd (process (example_os Map.empty 0) sorted_list_of_fset ''trixie'' ''rules'' 0 1 2 ''trixie'' scenario)) =
     [Print [PyStr ''[rules]:''],
      Print [PyStr ''moved to trixie:'', PyList [''b'']],
      Makedirs ''archive/trixie'',
      Call [''git'', ''mv'', ''rules/b'', ''archive/trixie''],
      Print [PyStr ''unknown:'', PyList [''c'']]] \<and>
   \<not> reports_before_moves
      (out (snd (process (example_os Map.empty 0) sorted_list_of_fset ''trixie'' ''rules'' 0 1 2 ''trixie'' scenario)))"
  by code_simp

section \<open>Failed moves\<close>

text \<open>
  C7. \<open>subprocess.call\<close> returns the exit status of \<open>git mv\<close> and line 53 drops it. So
  on an operating system where the command starts and \<open>makedirs\<close> does not fail,
  whatever the exit statuses are, the call of \<open>process\<close> ends without an exception, the
  move of every deprecated name is called, and the unknown report is the last thing
  printed. In the example after it every move ends with the exit status 1.
\<close>

theorem failed_move_does_not_abort:
  fixes s0 :: "'w state"
  assumes "packages < length (heap s0)" "testing < length (heap s0)" "stable' < length (heap s0)"
    and "iteration_order it" "starts_commands os" "creates_dirs os"
  shows "\<exists>s'. process os it STABLE category packages testing stable' archive s0 = (None, s') \<and>
     calls (events_since s0 s') =
       map (git_mv category archive)
         (it ((deref s0 packages |-| deref s0 testing) |\<inter>| deref s0 stable')) \<and>
     set (calls (events_since s0 s')) =
       git_mv category archive `
         fset ((deref s0 packages |-| deref s0 testing) |\<inter>| deref s0 stable') \<and>
     last (out s') =
       Print [PyStr ''unknown:'',
         PyList (py_sorted it ((deref s0 packages |-| deref s0 testing) |-| deref s0 stable'))]"
proof -
  let ?d = "(deref s0 packages |-| deref s0 testing) |\<inter>| deref s0 stable'"
  let ?u = "(deref s0 packages |-| deref s0 testing) |-| deref s0 stable'"
  from process_run [OF assms(1-3), of os it STABLE category archive]
  obtain e s' evs where
    p: "process os it STABLE category packages testing stable' archive s0 = (e, s')"
    and o: "out s' = out s0 @
        [Print [PyStr (''['' @ category @ '']:'')],
         Print [PyStr (''moved to '' @ STABLE @ '':''), PyList (py_sorted it ?d)]] @ evs @
        (case e of None \<Rightarrow> [Print [PyStr ''unknown:'', PyList (py_sorted it ?u)]]
                 | Some x \<Rightarrow> [])"
    and c: "e = None \<longrightarrow> calls evs = map (git_mv category archive) (it ?d)"
    by blast
  have e: "e = None"
    using process_completes [OF assms(5,6), of it STABLE category packages testing stable' archive s0] p
    by simp
  have 1: "calls (events_since s0 s') = map (git_mv category archive) (it ?d)"
    unfolding events_since_append [OF o] using c e by (simp add: calls_append)
  have "set (it ?d) = fset ?d" using assms(4) by (simp add: iteration_order_def)
  with 1 have 2: "set (calls (events_since s0 s')) = git_mv category archive ` fset ?d"
    by simp
  have 3: "last (out s') = Print [PyStr ''unknown:'', PyList (py_sorted it ?u)]"
    unfolding o e by simp
  from p e 1 2 3 show ?thesis by blast
qed

theorem failed_move_does_not_abort_witness:
  "\<exists>s'. process (example_os Map.empty 1) sorted_list_of_fset ''trixie'' ''rules'' 0 1 2 ''trixie''
           (scenario\<lparr>heap := [{|''a'', ''b'', ''c''|}, {|''a''|}, {|''b'', ''c''|}]\<rparr>) = (None, s') \<and>
     calls (out s') =
       [[''git'', ''mv'', ''rules/b'', ''archive/trixie''],
        [''git'', ''mv'', ''rules/c'', ''archive/trixie'']] \<and>
     last (out s') = Print [PyStr ''unknown:'', PyList []]"
proof -
  let ?s = "scenario\<lparr>heap := [{|''a'', ''b'', ''c''|}, {|''a''|}, {|''b'', ''c''|}]\<rparr>"
  have h: "0 < length (heap ?s)" "1 < length (heap ?s)" "2 < length (heap ?s)"
    by (simp_all add: scenario_def)
  have d: "sorted_list_of_fset ((deref ?s 0 |-| deref ?s 1) |\<inter>| deref ?s 2) = [''b'', ''c'']"
    by code_simp
  have u: "py_sorted sorted_list_of_fset ((deref ?s 0 |-| deref ?s 1) |-| deref ?s 2) = []"
    by code_simp
  have g: "map (git_mv ''rules'' ''trixie'') [''b'', ''c''] =
       [[''git'', ''mv'', ''rules/b'', ''archive/trixie''],
        [''git'', ''mv'', ''rules/c'', ''archive/trixie'']]"
    by code_simp
  have o: "out ?s = []" by (simp add: scenario_def)
  from failed_move_does_not_abort [OF h iteration_order_sorted
      example_os_total(1) [of Map.empty 1] example_os_total(2) [of Map.empty 1],
      where STABLE = "''trixie''" and category = "''rules''" and archive = "''trixie''"]
  show ?thesis unfolding d u g events_since_def o by auto
qed

section \<open>The reports\<close>

text \<open>
  C8. What a call of \<open>process\<close> prints is the category name, the deprecated report
  and, when no exception ends the call, the unknown report; the two lists are the
  sorted lists of the two sets, whatever the order in which the sets are iterated:
  \<open>sorted\<close> of a set is sorted in the lexicographic order of strings, has each element
  once, and is the same for every iteration order.
\<close>

theorem reports_sorted:
  fixes s0 :: "'w state"
  assumes "packages < length (heap s0)" "testing < length (heap s0)" "stable' < length (heap s0)"
    and "iteration_order it"
    and "process os it STABLE category packages testing stable' archive s0 = (e, s')"
  shows "prints (events_since s0 s') =
       [[PyStr (''['' @ category @ '']:'')],
        [PyStr (''moved to '' @ STABLE @ '':''),
         PyList (py_sorted it ((deref s0 packages |-| deref s0 testing) |\<inter>| deref s0 stable'))]] @
       (case e of
          None \<Rightarrow> [[PyStr ''unknown:'',
                     PyList (py_sorted it ((deref s0 packages |-| deref s0 testing) |-| deref s0 stable'))]]
        | Some x \<Rightarrow> []) \<and>
     py_sorted it = sorted_list_of_fset \<and>
     (\<forall>v. sorted (py_sorted it v) \<and> distinct (py_sorted it v) \<and> set (py_sorted it v) = fset v)"
proof -
  let ?d = "(deref s0 packages |-| deref s0 testing) |\<inter>| deref s0 stable'"
  let ?u = "(deref s0 packages |-| deref s0 testing) |-| deref s0 stable'"
  from process_run [OF assms(1-3), of os it STABLE category archive] assms(5)
  obtain evs where
    o: "out s' = out s0 @
        [Print [PyStr (''['' @ category @ '']:'')],
         Print [PyStr (''moved to '' @ STABLE @ '':''), PyList (py_sorted it ?d)]] @ evs @
        (case e of None \<Rightarrow> [Print [PyStr ''unknown:'', PyList (py_sorted it ?u)]]
                 | Some x \<Rightarrow> [])"
    and n: "list_all (\<lambda>ev. \<not> is_print ev) evs"
    by auto
  have 1: "prints (events_since s0 s') =
       [[PyStr (''['' @ category @ '']:'')],
        [PyStr (''moved to '' @ STABLE @ '':''), PyList (py_sorted it ?d)]] @
       (case e of None \<Rightarrow> [[PyStr ''unknown:'', PyList (py_sorted it ?u)]] | Some x \<Rightarrow> [])"
    unfolding events_since_append [OF o]
    by (simp add: prints_append prints_no_print [OF n] split: option.splits)
  have 2: "py_sorted it = sorted_list_of_fset"
    using py_sorted_eq [OF assms(4)] by (rule ext)
  have 3: "\<forall>v. sorted (py_sorted it v) \<and> distinct (py_sorted it v) \<and> set (py_sorted it v) = fset v"
    unfolding 2 by (simp add: sorted_list_of_fset.rep_eq)
  from 1 2 3 show ?thesis by blast
qed

theorem reports_sorted_witness:
  "prints (out (snd (process (example_os Map.empty 1) (rev \<circ> sorted_list_of_fset) ''trixie''
        ''rules'' 0 1 2 ''trixie''
        (scenario\<lparr>heap := [{|''d'', ''ab'', ''c'', ''b'', ''a''|}, {||}, {|''b'', ''a'', ''ab''|}]\<rparr>)))) =
     [[PyStr ''[rules]:''],
      [PyStr ''moved to trixie:'', PyList [''a'', ''ab'', ''b'']],
      [PyStr ''unknown:'', PyList [''c'', ''d'']]]"
proof -
  let ?s = "scenario\<lparr>heap := [{|''d'', ''ab'', ''c'', ''b'', ''a''|}, {||}, {|''b'', ''a'', ''ab''|}]\<rparr>"
  let ?it = "rev \<circ> sorted_list_of_fset"
  let ?r = "process (example_os Map.empty 1) ?it ''trixie'' ''rules'' 0 1 2 ''trixie'' ?s"
  have h: "0 < length (heap ?s)" "1 < length (heap ?s)" "2 < length (heap ?s)"
    by (simp_all add: scenario_def)
  have i: "iteration_order ?it"
    by (simp add: iteration_order_def sorted_list_of_fset.rep_eq)
  have p: "?r = (None, snd ?r)"
    using process_completes [OF example_os_total(1) [of Map.empty 1] example_os_total(2) [of Map.empty 1],
        of ?it "''trixie''" "''rules''" 0 1 2 "''trixie''" ?s]
    by (simp add: prod_eq_iff)
  have d: "sorted_list_of_fset ((deref ?s 0 |-| deref ?s 1) |\<inter>| deref ?s 2) = [''a'', ''ab'', ''b'']"
    by code_simp
  have u: "sorted_list_of_fset ((deref ?s 0 |-| deref ?s 1) |-| deref ?s 2) = [''c'', ''d'']"
    by code_simp
  have o: "out ?s = []" by (simp add: scenario_def)
  note r = reports_sorted [OF h i p]
  from r have B: "py_sorted ?it = sorted_list_of_fset" by blast
  from r have "prints (events_since ?s (snd ?r)) =
     [[PyStr ''[rules]:''],
      [PyStr ''moved to trixie:'', PyList [''a'', ''ab'', ''b'']],
      [PyStr ''unknown:'', PyList [''c'', ''d'']]]"
    unfolding B d u by simp
  then show ?thesis unfolding events_since_def o by simp
qed

section \<open>A category without a directory\<close>

text \<open>
  C9. When the directory of a category cannot be listed, \<open>glob\<close> matches nothing and
  the inventory of the category is the empty set, with no exception; and \<open>process\<close> on
  an empty inventory ends without an exception, with nothing created and nothing moved,
  and prints two empty reports.
\<close>

theorem missing_directory:
  fixes s0 :: "'w state"
  shows "(listdir os w ''rules'' = Inl x \<longrightarrow> filters_of os w = {||}) \<and>
     (listdir os w ''explain'' = Inl x \<longrightarrow> explain_of os w = {||}) \<and>
     (packages < length (heap s0) \<and> testing < length (heap s0) \<and> stable' < length (heap s0) \<and>
      deref s0 packages = {||} \<and> iteration_order it \<longrightarrow>
      process os it STABLE category packages testing stable' archive s0 =
        (None, s0\<lparr>heap := heap s0 @ [{||}, {||}, {||}],
           out := out s0 @
             [Print [PyStr (''['' @ category @ '']:'')],
              Print [PyStr (''moved to '' @ STABLE @ '':''), PyList []],
              Print [PyStr ''unknown:'', PyList []]]\<rparr>))"
proof -
  have "process os it STABLE category packages testing stable' archive s0 =
        (None, s0\<lparr>heap := heap s0 @ [{||}, {||}, {||}],
           out := out s0 @
             [Print [PyStr (''['' @ category @ '']:'')],
              Print [PyStr (''moved to '' @ STABLE @ '':''), PyList []],
              Print [PyStr ''unknown:'', PyList []]]\<rparr>)"
    if h: "packages < length (heap s0)" "testing < length (heap s0)" "stable' < length (heap s0)"
      and p: "deref s0 packages = {||}" and i: "iteration_order it"
  proof -
    have "set (it {||}) = fset {||}" using i unfolding iteration_order_def by blast
    then have e: "it {||} = []" by simp
    have "it ((deref s0 packages |-| deref s0 testing) |\<inter>| deref s0 stable') = []"
      by (simp add: p e)
    then have "process os it STABLE category packages testing stable' archive s0 =
     (None, s0\<lparr>heap := heap s0 @
        [deref s0 packages |-| deref s0 testing,
         (deref s0 packages |-| deref s0 testing) |\<inter>| deref s0 stable',
         (deref s0 packages |-| deref s0 testing) |-| deref s0 stable'],
       out := out s0 @
        [Print [PyStr (''['' @ category @ '']:'')],
         Print [PyStr (''moved to '' @ STABLE @ '':''), PyList (sort [])],
         Print [PyStr ''unknown:'',
           PyList (py_sorted it ((deref s0 packages |-| deref s0 testing) |-| deref s0 stable'))]]\<rparr>)"
      using h by (intro process_nothing_to_move)
    then show ?thesis by (simp add: p py_sorted_def e)
  qed
  then show ?thesis using scan_missing [of os w x] by blast
qed


theorem missing_directory_witness:
  "filters_of (example_os Map.empty 0) [] = {||} \<and>
   explain_of (example_os Map.empty 0) [] = {||} \<and>
   process (example_os Map.empty 0) sorted_list_of_fset ''trixie'' ''rules'' 2 0 1 ''trixie''
     \<lparr>heap = [{|''a''|}, {|''b''|}, filters_of (example_os Map.empty 0) []], out = [], world = []\<rparr> =
     (None, \<lparr>heap = [{|''a''|}, {|''b''|}, {||}, {||}, {||}, {||}],
        out = [Print [PyStr ''[rules]:''],
               Print [PyStr ''moved to trixie:'', PyList []],
               Print [PyStr ''unknown:'', PyList []]],
        world = []\<rparr>)"
proof -
  let ?os = "example_os Map.empty 0"
  note m = missing_directory [where os = ?os and w = "[]" and x = OSError and it = sorted_list_of_fset]
  have l: "listdir ?os [] ''rules'' = Inl OSError" "listdir ?os [] ''explain'' = Inl OSError"
    by (simp_all add: example_os_def)
  from m l have f: "filters_of ?os [] = {||}" and x: "explain_of ?os [] = {||}" by blast+
  let ?s = "\<lparr>heap = [{|''a''|}, {|''b''|}, {||}], out = [], world = [] :: string list\<rparr>"
  have h: "2 < length (heap ?s)" "0 < length (heap ?s)" "1 < length (heap ?s)" "deref ?s 2 = {||}"
    by (simp_all add: deref_def)
  from m [where ?s0.0 = ?s and packages = 2 and testing = 0 and stable' = 1
      and STABLE = "''trixie''" and category = "''rules''" and archive = "''trixie''"]
    h iteration_order_sorted
  have "process ?os sorted_list_of_fset ''trixie'' ''rules'' 2 0 1 ''trixie'' ?s =
     (None, ?s\<lparr>heap := heap ?s @ [{||}, {||}, {||}],
           out := out ?s @
             [Print [PyStr (''['' @ ''rules'' @ '']:'')],
              Print [PyStr (''moved to '' @ ''trixie'' @ '':''), PyList []],
              Print [PyStr ''unknown:'', PyList []]]\<rparr>)"
    by blast
  then show ?thesis unfolding f x by simp
qed

section \<open>The case filter of the explain category\<close>

text \<open>
  C4. A name that is not its own lower-case form, that is a name with an upper-case
  character, is never in the inventory of the \<open>explain\<close> category, whatever the
  directory holds; so in the run of that category it is in neither report and its file
  is not moved. An entry of the \<open>explain\<close> directory that
  is its own lower-case form is in the inventory, and the \<open>rules\<close> category takes an
  entry whatever its case. In both categories \<open>glob\<close> leaves out the entries that start
  with a dot.
\<close>

theorem explain_case_filter:
  fixes s0 :: "'w state"
  assumes "n \<noteq> lower n"
  shows "(\<exists>c \<in> set n. isupper c) \<and>
     n |\<notin>| explain_of os w \<and>
     (packages < length (heap s0) \<and> testing < length (heap s0) \<and> stable' < length (heap s0) \<and>
      deref s0 packages = explain_of os w \<and> iteration_order it \<and>
      process os it STABLE ''explain'' packages testing stable' ''explain'' s0 = (e, s') \<longrightarrow>
        n \<notin> set (concat (map listed (events_since s0 s'))) \<and>
        git_mv ''explain'' ''explain'' n \<notin> set (calls (events_since s0 s'))) \<and>
     (\<forall>names m. listdir os w ''explain'' = Inr names \<and> (\<forall>x \<in> set names. entry_name x) \<and>
        m \<in> set names \<and> \<not> ishidden m \<and> m = lower m \<longrightarrow> m |\<in>| explain_of os w) \<and>
     (\<forall>names. listdir os w ''rules'' = Inr names \<and> (\<forall>x \<in> set names. entry_name x) \<and>
        n \<in> set names \<and> \<not> ishidden n \<longrightarrow> n |\<in>| filters_of os w)"
proof -
  have 1: "n |\<notin>| explain_of os w" using assms explain_of_lower [of n os w] by blast
  have 2: "n \<notin> set (concat (map listed (events_since s0 s'))) \<and>
        git_mv ''explain'' ''explain'' n \<notin> set (calls (events_since s0 s'))"
    if h: "packages < length (heap s0)" "testing < length (heap s0)" "stable' < length (heap s0)"
      and p: "deref s0 packages = explain_of os w" and i: "iteration_order it"
      and r: "process os it STABLE ''explain'' packages testing stable' ''explain'' s0 = (e, s')"
  proof -
    note pr = process_reports [OF h i r]
    have a: "n \<notin> set (concat (map listed (events_since s0 s')))"
      using pr 1 unfolding p by auto
    have "git_mv ''explain'' ''explain'' n \<notin> set (calls (events_since s0 s'))"
    proof
      assume "git_mv ''explain'' ''explain'' n \<in> set (calls (events_since s0 s'))"
      with pr obtain item where it: "item |\<in>| explain_of os w"
        and g: "git_mv ''explain'' ''explain'' n = git_mv ''explain'' ''explain'' item"
        unfolding p by auto
      from git_mv_inj [OF _ _ scan_no_slash(1) [OF it] g] have "n = item" by simp
      with it 1 show False by simp
    qed
    with a show ?thesis by simp
  qed
  have 3: "m |\<in>| explain_of os w"
    if "listdir os w ''explain'' = Inr names" "\<forall>x \<in> set names. entry_name x"
      "m \<in> set names" "\<not> ishidden m" "m = lower m" for names m
    using explain_of_eq [OF that(1,2)] that(3-5) by auto
  have 4: "n |\<in>| filters_of os w"
    if "listdir os w ''rules'' = Inr names" "\<forall>x \<in> set names. entry_name x"
      "n \<in> set names" "\<not> ishidden n" for names
    using filters_of_eq [OF that(1,2)] that(3,4) by auto
  have 0: "\<exists>c \<in> set n. isupper c" using assms by (simp add: not_lower_iff)
  from 0 1 2 3 4 show ?thesis by blast
qed

theorem explain_case_filter_witness:
  "''MyPkg'' |\<notin>| explain_of (example_os example_dirs 0) [] \<and>
   ''mypkg'' |\<in>| explain_of (example_os example_dirs 0) [] \<and>
   ''MyPkg'' |\<in>| filters_of (example_os example_dirs 0) [] \<and>
   ''MyPkg'' \<notin> set (concat (map listed (out (snd
      (process (example_os example_dirs 0) sorted_list_of_fset ''trixie'' ''explain'' 2 0 1 ''explain''
         \<lparr>heap = [{|''zz''|}, {|''c'', ''MyPkg''|}, explain_of (example_os example_dirs 0) []],
          out = [], world = []\<rparr>))))) \<and>
   git_mv ''explain'' ''explain'' ''MyPkg'' \<notin> set (calls (out (snd
      (process (example_os example_dirs 0) sorted_list_of_fset ''trixie'' ''explain'' 2 0 1 ''explain''
         \<lparr>heap = [{|''zz''|}, {|''c'', ''MyPkg''|}, explain_of (example_os example_dirs 0) []],
          out = [], world = []\<rparr>))))"
proof -
  let ?os = "example_os example_dirs 0"
  let ?s = "\<lparr>heap = [{|''zz''|}, {|''c'', ''MyPkg''|}, explain_of ?os []],
          out = [], world = [] :: string list\<rparr>"
  let ?r = "process ?os sorted_list_of_fset ''trixie'' ''explain'' 2 0 1 ''explain'' ?s"
  have n: "''MyPkg'' \<noteq> lower ''MyPkg''" by code_simp
  note t = explain_case_filter [OF n, where os = ?os and w = "[]" and ?s0.0 = ?s
      and packages = 2 and testing = 0 and stable' = 1 and it = sorted_list_of_fset
      and STABLE = "''trixie''" and e = "fst ?r" and s' = "snd ?r"]
  have h: "2 < length (heap ?s)" "0 < length (heap ?s)" "1 < length (heap ?s)"
    "deref ?s 2 = explain_of ?os []" "?r = (fst ?r, snd ?r)"
    by (simp_all add: deref_def)
  have ev: "events_since ?s (snd ?r) = out (snd ?r)" by (simp add: events_since_def)
  have lx: "listdir ?os [] ''explain'' = Inr [''MyPkg'', ''mypkg'', ''c'']"
    and lr: "listdir ?os [] ''rules'' = Inr [''MyPkg'', ''zz'', ''libraspberrypi0'', ''.gitignore'']"
    by (simp_all add: example_os_def example_dirs_def)
  have ex: "\<forall>x \<in> set [''MyPkg'', ''mypkg'', ''c'']. entry_name x"
    and er: "\<forall>x \<in> set [''MyPkg'', ''zz'', ''libraspberrypi0'', ''.gitignore'']. entry_name x"
    by (simp_all add: entry_name_def)
  have m: "''mypkg'' \<in> set [''MyPkg'', ''mypkg'', ''c'']" "\<not> ishidden ''mypkg''"
      "''mypkg'' = lower ''mypkg''"
    and k: "''MyPkg'' \<in> set [''MyPkg'', ''zz'', ''libraspberrypi0'', ''.gitignore'']"
      "\<not> ishidden ''MyPkg''"
    by (simp_all add: ishidden_def lower_def lower_char_def isupper_def)
  from t have 1: "''MyPkg'' |\<notin>| explain_of ?os []" by blast
  from t h iteration_order_sorted have 2:
    "''MyPkg'' \<notin> set (concat (map listed (events_since ?s (snd ?r)))) \<and>
     git_mv ''explain'' ''explain'' ''MyPkg'' \<notin> set (calls (events_since ?s (snd ?r)))"
    by blast
  from t lx ex m have 3: "''mypkg'' |\<in>| explain_of ?os []" by blast
  from t lr er k have 4: "''MyPkg'' |\<in>| filters_of ?os []" by blast
  from 1 2 3 4 show ?thesis unfolding ev by blast
qed

section \<open>The allow-list\<close>

text \<open>
  C5. The three fixed names are in \<open>testing\<close> whatever the package listing holds. So in
  a run of the program a local entry with one of these names is in no report of either
  category, and its file is not moved.
\<close>

theorem allow_list_current:
  fixes os :: "'w os_iface"
  assumes "iteration_order it1" "iteration_order it2"
    and "n = ''raspberrypi-bootloader'' \<or> n = ''libraspberrypi0'' \<or> n = ''google-earth-stable''"
    and "main os it1 it2 STABLE (testing_of listing) stable_v w = (e, s')"
  shows "n |\<in>| testing_of listing \<and>
     n \<notin> set (concat (map listed (out s'))) \<and>
     git_mv ''rules'' STABLE n \<notin> set (calls (out s')) \<and>
     git_mv ''explain'' ''explain'' n \<notin> set (calls (out s'))"
proof -
  let ?T = "testing_of listing"
  let ?F = "filters_of os w"
  let ?E = "explain_of os w"
  let ?s = "\<lparr>heap = [?T, stable_v, ?F, ?E], out = [], world = w\<rparr>"
  have t: "n |\<in>| ?T" using assms(3) by (auto simp: testing_of_def)
  from main_run [OF assms(4)] obtain e1 s1 where
    p1: "process os it1 STABLE ''rules'' 2 0 1 STABLE ?s = (e1, s1)"
    and c: "case e1 of Some x \<Rightarrow> e = Some x \<and> s' = s1
      | None \<Rightarrow> process os it2 STABLE ''explain'' 3 0 1 ''explain'' (py_print [] s1) = (e, s')"
    by blast
  have o1: "out s1 = events_since ?s s1"
    using process_out [OF _ _ _ p1] by simp
  have r1: "set (concat (map listed (out s1))) \<subseteq> fset (?F |-| ?T)"
      "set (calls (out s1)) \<subseteq> git_mv ''rules'' STABLE ` fset ((?F |-| ?T) |\<inter>| stable_v)"
    using process_reports [OF _ _ _ assms(1) p1] unfolding o1 by (simp_all add: deref_def)
  have h1: "heap s1 = [?T, stable_v, ?F, ?E, ?F |-| ?T, (?F |-| ?T) |\<inter>| stable_v,
      (?F |-| ?T) |-| stable_v]"
    using process_heap [OF _ _ _ p1] by (simp add: deref_def)
  have a1: "n \<notin> set (concat (map listed (out s1)))" using r1(1) t by auto
  have b1: "git_mv c a n \<notin> set (calls (out s1))" if "c = ''rules'' \<or> c = ''explain''" for c a
  proof
    assume "git_mv c a n \<in> set (calls (out s1))"
    with r1(2) obtain item where i: "item |\<in>| ?F" "item |\<notin>| ?T"
      and g: "git_mv c a n = git_mv ''rules'' STABLE item" by auto
    from git_mv_inj [OF that _ scan_no_slash(2) [OF i(1)] g] have "n = item" by simp
    with i(2) t show False by simp
  qed
  show ?thesis
  proof (cases e1)
    case (Some x)
    with c have "s' = s1" by simp
    with t a1 b1 show ?thesis by simp
  next
    case None
    let ?s1 = "py_print [] s1"
    from None c have p2: "process os it2 STABLE ''explain'' 3 0 1 ''explain'' ?s1 = (e, s')"
      by simp
    have hs: "heap ?s1 = heap s1" "out ?s1 = out s1 @ [Print []]" by (simp_all add: py_print_def)
    have o2: "out s' = out s1 @ [Print []] @ events_since ?s1 s'"
      using process_out [OF _ _ _ p2] by (simp add: hs h1)
    have r2: "set (concat (map listed (events_since ?s1 s'))) \<subseteq> fset (?E |-| ?T)"
      "set (calls (events_since ?s1 s')) \<subseteq>
         git_mv ''explain'' ''explain'' ` fset ((?E |-| ?T) |\<inter>| stable_v)"
      using process_reports [OF _ _ _ assms(2) p2] by (simp_all add: deref_def hs h1)
    have a2: "n \<notin> set (concat (map listed (events_since ?s1 s')))" using r2(1) t by auto
    have b2: "git_mv c a n \<notin> set (calls (events_since ?s1 s'))"
      if "c = ''rules'' \<or> c = ''explain''" for c a
    proof
      assume "git_mv c a n \<in> set (calls (events_since ?s1 s'))"
      with r2(2) obtain item where i: "item |\<in>| ?E" "item |\<notin>| ?T"
        and g: "git_mv c a n = git_mv ''explain'' ''explain'' item" by auto
      from git_mv_inj [OF that _ scan_no_slash(1) [OF i(1)] g] have "n = item" by simp
      with i(2) t show False by simp
    qed
    from t a1 a2 b1 b2 show ?thesis unfolding o2 by (simp add: calls_append)
  qed
qed

theorem allow_list_current_witness:
  "''libraspberrypi0'' \<notin> set (map rstrip (text_lines ''a\<newline>zz  \<newline>'')) \<and>
   ''libraspberrypi0'' |\<in>| filters_of (example_os example_dirs 1) [] \<and>
   ''libraspberrypi0'' |\<in>| testing_of ''a\<newline>zz  \<newline>'' \<and>
   ''libraspberrypi0'' \<notin> set (concat (map listed (out (snd
      (main (example_os example_dirs 1) sorted_list_of_fset sorted_list_of_fset ''trixie''
         (testing_of ''a\<newline>zz  \<newline>'') {|''libraspberrypi0'', ''c''|} []))))) \<and>
   git_mv ''rules'' ''trixie'' ''libraspberrypi0'' \<notin> set (calls (out (snd
      (main (example_os example_dirs 1) sorted_list_of_fset sorted_list_of_fset ''trixie''
         (testing_of ''a\<newline>zz  \<newline>'') {|''libraspberrypi0'', ''c''|} []))))"
proof -
  let ?r = "main (example_os example_dirs 1) sorted_list_of_fset sorted_list_of_fset ''trixie''
         (testing_of ''a\<newline>zz  \<newline>'') {|''libraspberrypi0'', ''c''|} []"
  have m: "?r = (fst ?r, snd ?r)" by simp
  have 1: "''libraspberrypi0'' \<notin> set (map rstrip (text_lines ''a\<newline>zz  \<newline>''))"
    by code_simp
  have 2: "''libraspberrypi0'' |\<in>| filters_of (example_os example_dirs 1) []"
    by code_simp
  from allow_list_current [OF iteration_order_sorted iteration_order_sorted _ m,
      of "''libraspberrypi0''"] 1 2
  show ?thesis by simp
qed

section \<open>The reference sets are not modified\<close>

text \<open>
  C10. A call of \<open>process\<close> only adds set objects to the heap: every object that was
  there, \<open>testing\<close> and \<open>stable\<close> among them, keeps its value. In a run of the program
  the two objects still hold the two reference sets at the end, and the second call of
  \<open>process\<close> classifies the \<open>explain\<close> inventory against the same two sets as the first.
\<close>

theorem reference_sets_unchanged:
  fixes s0 :: "'w state" and os' :: "'v os_iface"
  shows "(packages < length (heap s0) \<and> testing < length (heap s0) \<and> stable' < length (heap s0) \<and>
      process os it STABLE category packages testing stable' archive s0 = (e, s') \<longrightarrow>
        deref s' testing = deref s0 testing \<and> deref s' stable' = deref s0 stable' \<and>
        take (length (heap s0)) (heap s') = heap s0) \<and>
     (main os' it1 it2 STABLE' testing_v stable_v w = (e2, s2) \<longrightarrow>
        deref s2 0 = testing_v \<and> deref s2 1 = stable_v \<and>
        (e2 = None \<longrightarrow> heap s2 =
          [testing_v, stable_v, filters_of os' w, explain_of os' w,
           filters_of os' w |-| testing_v,
           (filters_of os' w |-| testing_v) |\<inter>| stable_v,
           (filters_of os' w |-| testing_v) |-| stable_v,
           explain_of os' w |-| testing_v,
           (explain_of os' w |-| testing_v) |\<inter>| stable_v,
           (explain_of os' w |-| testing_v) |-| stable_v]))"
proof -
  have 1: "deref s' testing = deref s0 testing \<and> deref s' stable' = deref s0 stable' \<and>
        take (length (heap s0)) (heap s') = heap s0"
    if h: "packages < length (heap s0)" "testing < length (heap s0)" "stable' < length (heap s0)"
      and r: "process os it STABLE category packages testing stable' archive s0 = (e, s')"
    using process_heap [OF h r] h by (simp add: deref_def nth_append)
  have 2: "deref s2 0 = testing_v \<and> deref s2 1 = stable_v \<and>
        (e2 = None \<longrightarrow> heap s2 =
          [testing_v, stable_v, filters_of os' w, explain_of os' w,
           filters_of os' w |-| testing_v,
           (filters_of os' w |-| testing_v) |\<inter>| stable_v,
           (filters_of os' w |-| testing_v) |-| stable_v,
           explain_of os' w |-| testing_v,
           (explain_of os' w |-| testing_v) |\<inter>| stable_v,
           (explain_of os' w |-| testing_v) |-| stable_v])"
    if m: "main os' it1 it2 STABLE' testing_v stable_v w = (e2, s2)"
  proof -
    let ?s = "\<lparr>heap = [testing_v, stable_v, filters_of os' w, explain_of os' w],
               out = [], world = w\<rparr>"
    from main_run [OF m] obtain e1 s1 where
      p1: "process os' it1 STABLE' ''rules'' 2 0 1 STABLE' ?s = (e1, s1)"
      and c: "case e1 of Some x \<Rightarrow> e2 = Some x \<and> s2 = s1
        | None \<Rightarrow> process os' it2 STABLE' ''explain'' 3 0 1 ''explain'' (py_print [] s1) = (e2, s2)"
      by blast
    have h1: "heap s1 = [testing_v, stable_v, filters_of os' w, explain_of os' w,
           filters_of os' w |-| testing_v,
           (filters_of os' w |-| testing_v) |\<inter>| stable_v,
           (filters_of os' w |-| testing_v) |-| stable_v]"
      using process_heap [OF _ _ _ p1] by (simp add: deref_def)
    show ?thesis
    proof (cases e1)
      case (Some x)
      with c h1 show ?thesis by (simp add: deref_def)
    next
      case None
      with c have p2: "process os' it2 STABLE' ''explain'' 3 0 1 ''explain'' (py_print [] s1) = (e2, s2)"
        by simp
      have "heap (py_print [] s1) = heap s1" by (simp add: py_print_def)
      with process_heap [OF _ _ _ p2] h1 show ?thesis by (simp add: deref_def)
    qed
  qed
  from 1 2 show ?thesis by blast
qed

theorem reference_sets_unchanged_witness:
  "(case process (example_os example_dirs 1) sorted_list_of_fset ''trixie'' ''rules'' 0 1 2 ''trixie'' scenario of
      (e, s') \<Rightarrow> deref s' 1 = {|''a''|} \<and> deref s' 2 = {|''b''|} \<and> take 3 (heap s') = heap scenario) \<and>
   (case main (example_os example_dirs 1) sorted_list_of_fset sorted_list_of_fset ''trixie''
           {|''zz''|} {|''c'', ''MyPkg''|} [] of
      (e, s') \<Rightarrow> e = None \<and> deref s' 0 = {|''zz''|} \<and> deref s' 1 = {|''c'', ''MyPkg''|} \<and>
         length (heap s') = 10)"
proof -
  let ?os = "example_os example_dirs 1"
  let ?p = "process ?os sorted_list_of_fset ''trixie'' ''rules'' 0 1 2 ''trixie'' scenario"
  let ?m = "main ?os sorted_list_of_fset sorted_list_of_fset ''trixie'' {|''zz''|} {|''c'', ''MyPkg''|} []"
  note t = reference_sets_unchanged [where ?s0.0 = scenario and os = ?os and os' = ?os
      and packages = 0 and testing = 1 and stable' = 2 and it = sorted_list_of_fset
      and STABLE = "''trixie''" and category = "''rules''" and archive = "''trixie''"
      and e = "fst ?p" and s' = "snd ?p"
      and ?it1.0 = sorted_list_of_fset and ?it2.0 = sorted_list_of_fset and STABLE' = "''trixie''"
      and testing_v = "{|''zz''|}" and stable_v = "{|''c'', ''MyPkg''|}" and w = "[]"
      and ?e2.0 = "fst ?m" and ?s2.0 = "snd ?m"]
  have h: "0 < length (heap scenario)" "1 < length (heap scenario)" "2 < length (heap scenario)"
    "length (heap scenario) = 3" "deref scenario 1 = {|''a''|}" "deref scenario 2 = {|''b''|}"
    "?p = (fst ?p, snd ?p)" "?m = (fst ?m, snd ?m)"
    by (simp_all add: scenario_def deref_def)
  have n: "fst ?m = None" by code_simp
  from t h have 1: "deref (snd ?p) 1 = {|''a''|} \<and> deref (snd ?p) 2 = {|''b''|} \<and>
      take 3 (heap (snd ?p)) = heap scenario"
    by metis
  from t h(8) n have "deref (snd ?m) 0 = {|''zz''|} \<and> deref (snd ?m) 1 = {|''c'', ''MyPkg''|} \<and>
      length (heap (snd ?m)) = length
          [{|''zz''|}, {|''c'', ''MyPkg''|}, filters_of ?os [], explain_of ?os [],
           filters_of ?os [] |-| {|''zz''|},
           (filters_of ?os [] |-| {|''zz''|}) |\<inter>| {|''c'', ''MyPkg''|},
           (filters_of ?os [] |-| {|''zz''|}) |-| {|''c'', ''MyPkg''|},
           explain_of ?os [] |-| {|''zz''|},
           (explain_of ?os [] |-| {|''zz''|}) |\<inter>| {|''c'', ''MyPkg''|},
           (explain_of ?os [] |-| {|''zz''|}) |-| {|''c'', ''MyPkg''|}]"
    by metis
  then have 2: "deref (snd ?m) 0 = {|''zz''|} \<and> deref (snd ?m) 1 = {|''c'', ''MyPkg''|} \<and>
      length (heap (snd ?m)) = 10"
    by simp
  from 1 2 n show ?thesis by (simp add: case_prod_beta)
qed

end
